theory Spec2Isabelle
  imports Complex_Main
begin

section \<open>Data model (src/types/index.ts)\<close>

text \<open>
  The TypeScript interfaces become records and the string union \<^verbatim>\<open>ToolType\<close> a datatype.
  A JavaScript \<^verbatim>\<open>number\<close> that holds a coordinate or a length is a \<^typ>\<open>real\<close>; a number that
  only ever counts (the history index) is an \<^typ>\<open>int\<close>. Optional fields are options.
  Field names carry a short prefix where the plain name (\<^verbatim>\<open>x\<close>, \<^verbatim>\<open>id\<close>, \<^verbatim>\<open>type\<close>, \<^verbatim>\<open>text\<close>) is
  not available as a constant name.
\<close>

datatype ToolType = Select | Arrow | Rect | Text | Mosaic

record Point =
  pt_x :: real
  pt_y :: real

record Style =
  color :: string
  lineWidth :: real
  fontSize :: "real option"

record Annotation =
  ann_id :: string
  ann_type :: ToolType
  points :: "Point list"
  style :: Style
  ann_text :: "string option"

record Selection =
  sel_x :: real
  sel_y :: real
  sel_width :: real
  sel_height :: real

datatype js_error = TypeError

section \<open>Annotation history (composables/useAnnotation.ts)\<close>

text \<open>
  The three refs that the history operations read and write. The refs \<^verbatim>\<open>currentTool\<close>,
  \<^verbatim>\<open>currentColor\<close> and \<^verbatim>\<open>currentLineWidth\<close> of the composable are never touched by them.
\<close>

record History =
  annotations :: "Annotation list"
  history :: "Annotation list list"
  historyIndex :: int

definition useAnnotation :: History where
  "useAnnotation = \<lparr>annotations = [], history = [[]], historyIndex = 0\<rparr>"

text \<open>
  \<^verbatim>\<open>xs.slice(0, e)\<close> for an integer \<^verbatim>\<open>e\<close>: a negative end counts from the back, the result is
  clipped to the array. \<^verbatim>\<open>xs[i]\<close> is \<^verbatim>\<open>undefined\<close> outside the array.
\<close>

definition slice0 :: "'a list \<Rightarrow> int \<Rightarrow> 'a list" where
  "slice0 xs e =
     (let n = int (length xs);
          k = (if e < 0 then max (n + e) 0 else min e n)
      in take (nat k) xs)"

definition js_index :: "'a list \<Rightarrow> int \<Rightarrow> 'a option" where
  "js_index xs i = (if 0 \<le> i \<and> i < int (length xs) then Some (xs ! nat i) else None)"

definition saveHistory :: "History \<Rightarrow> History" where
  "saveHistory s =
     (let h1 = slice0 (history s) (historyIndex s + 1);
          h2 = h1 @ [annotations s]
      in s\<lparr>history := h2, historyIndex := int (length h2) - 1\<rparr>)"

definition addAnnotation :: "Annotation \<Rightarrow> History \<Rightarrow> History" where
  "addAnnotation annotation s = saveHistory (s\<lparr>annotations := annotations s @ [annotation]\<rparr>)"

text \<open>
  \<^verbatim>\<open>[...history.value[historyIndex.value]]\<close> throws a TypeError when the index is outside the
  array (spreading \<^verbatim>\<open>undefined\<close>); the decrement or increment has happened by then.
\<close>

definition undo :: "History \<Rightarrow> js_error + History" where
  "undo s =
     (if historyIndex s > 0 then
        (let i = historyIndex s - 1 in
           case js_index (history s) i of
             None \<Rightarrow> Inl TypeError
           | Some snap \<Rightarrow> Inr (s\<lparr>historyIndex := i, annotations := snap\<rparr>))
      else Inr s)"

definition redo :: "History \<Rightarrow> js_error + History" where
  "redo s =
     (if historyIndex s < int (length (history s)) - 1 then
        (let i = historyIndex s + 1 in
           case js_index (history s) i of
             None \<Rightarrow> Inl TypeError
           | Some snap \<Rightarrow> Inr (s\<lparr>historyIndex := i, annotations := snap\<rparr>))
      else Inr s)"

definition clear :: "History \<Rightarrow> History" where
  "clear s = saveHistory (s\<lparr>annotations := []\<rparr>)"

definition canUndo :: "History \<Rightarrow> bool" where
  "canUndo s = (historyIndex s > 0)"

definition canRedo :: "History \<Rightarrow> bool" where
  "canRedo s = (historyIndex s < int (length (history s)) - 1)"

text \<open>A sequence of calls on the composable; a thrown error ends it.\<close>

datatype hist_op = AddAnnotation Annotation | Undo | Redo | Clear

fun apply_op :: "hist_op \<Rightarrow> History \<Rightarrow> js_error + History" where
  "apply_op (AddAnnotation a) s = Inr (addAnnotation a s)"
| "apply_op Undo s = undo s"
| "apply_op Redo s = redo s"
| "apply_op Clear s = Inr (clear s)"

fun run_ops :: "hist_op list \<Rightarrow> History \<Rightarrow> js_error + History" where
  "run_ops [] s = Inr s"
| "run_ops (c # cs) s = (case apply_op c s of Inl e \<Rightarrow> Inl e | Inr s' \<Rightarrow> run_ops cs s')"

text \<open>The history invariant of the data model, as a computable predicate.\<close>

definition hist_inv :: "History \<Rightarrow> bool" where
  "hist_inv s =
     (0 \<le> historyIndex s \<and> historyIndex s < int (length (history s)) \<and>
      js_index (history s) (historyIndex s) = Some (annotations s))"

text \<open>Two fixed annotations for the concrete runs below.\<close>

definition annA :: Annotation where
  "annA = \<lparr>ann_id = ''1'', ann_type = Rect,
            points = [\<lparr>pt_x = 0, pt_y = 0\<rparr>, \<lparr>pt_x = 20, pt_y = 10\<rparr>],
            style = \<lparr>color = ''#ff0000'', lineWidth = 3, fontSize = None\<rparr>,
            ann_text = None\<rparr>"

definition annB :: Annotation where
  "annB = \<lparr>ann_id = ''2'', ann_type = Arrow,
            points = [\<lparr>pt_x = 5, pt_y = 5\<rparr>, \<lparr>pt_x = 50, pt_y = 40\<rparr>],
            style = \<lparr>color = ''#0000ff'', lineWidth = 3, fontSize = None\<rparr>,
            ann_text = None\<rparr>"

section \<open>Region selector (components/RegionSelector.vue)\<close>

text \<open>
  The refs of the component that the pointer handlers use. \<^verbatim>\<open>imgSize\<close> is written only by the
  image's load callback and read only by the template.
\<close>

record Selector =
  isSelecting :: bool
  startPoint :: Point
  endPoint :: Point

definition selector_setup :: Selector where
  "selector_setup =
     \<lparr>isSelecting = False, startPoint = \<lparr>pt_x = 0, pt_y = 0\<rparr>, endPoint = \<lparr>pt_x = 0, pt_y = 0\<rparr>\<rparr>"

definition selection :: "Selector \<Rightarrow> Selection" where
  "selection s =
     \<lparr>sel_x = min (pt_x (startPoint s)) (pt_x (endPoint s)),
      sel_y = min (pt_y (startPoint s)) (pt_y (endPoint s)),
      sel_width = \<bar>pt_x (endPoint s) - pt_x (startPoint s)\<bar>,
      sel_height = \<bar>pt_y (endPoint s) - pt_y (startPoint s)\<bar>\<rparr>"

definition hasSelection :: "Selector \<Rightarrow> bool" where
  "hasSelection s = (sel_width (selection s) > 10 \<and> sel_height (selection s) > 10)"

text \<open>
  The handlers take what they read of the event: \<open>inToolbar\<close> says whether the target lies
  inside \<^verbatim>\<open>.capture-toolbar\<close>, the point is \<^verbatim>\<open>(clientX, clientY)\<close>. \<^verbatim>\<open>onMouseUp\<close> returns the
  payload of the \<^verbatim>\<open>select\<close> event when it emits one.
\<close>

definition selector_onMouseDown :: "bool \<Rightarrow> Point \<Rightarrow> Selector \<Rightarrow> Selector" where
  "selector_onMouseDown inToolbar e s =
     (if inToolbar then s
      else s\<lparr>isSelecting := True, startPoint := e, endPoint := e\<rparr>)"

definition selector_onMouseMove :: "Point \<Rightarrow> Selector \<Rightarrow> Selector" where
  "selector_onMouseMove e s = (if isSelecting s then s\<lparr>endPoint := e\<rparr> else s)"

definition selector_onMouseUp :: "Selector \<Rightarrow> Selection option \<times> Selector" where
  "selector_onMouseUp s =
     ((if isSelecting s \<and> hasSelection s then Some (selection s) else None),
      s\<lparr>isSelecting := False\<rparr>)"

text \<open>A drag: a pointer-down outside the toolbar at the anchor, then the pointer moves.\<close>

definition drag :: "Point \<Rightarrow> Point list \<Rightarrow> Selector \<Rightarrow> Selector" where
  "drag anchor moves s =
     foldl (\<lambda>t e. selector_onMouseMove e t) (selector_onMouseDown False anchor s) moves"

section \<open>Panel layout (App.vue)\<close>

definition TOOLBAR_WIDTH :: real where "TOOLBAR_WIDTH = 580"
definition TOOLBAR_HEIGHT :: real where "TOOLBAR_HEIGHT = 48"
definition TOOLBAR_GAP :: real where "TOOLBAR_GAP = 10"

text \<open>
  The computed style object: \<open>Px n\<close> stands for the template string \<^verbatim>\<open>`${n}px`\<close>, \<open>Auto\<close> for
  \<^verbatim>\<open>'auto'\<close>. The viewport size (\<^verbatim>\<open>window.innerWidth\<close>, \<^verbatim>\<open>window.innerHeight\<close>) and the selection
  are the arguments.
\<close>

datatype css_length = Px real | Auto

record Position =
  pos_left :: css_length
  pos_right :: css_length
  pos_top :: css_length

definition toolbarPosition :: "real \<Rightarrow> real \<Rightarrow> Selection \<Rightarrow> Position" where
  "toolbarPosition screenW screenH sel =
     (let bottomSpace = screenH - (sel_y sel + sel_height sel);
          topSpace = sel_y sel;
          top = (if bottomSpace \<ge> TOOLBAR_HEIGHT + TOOLBAR_GAP then
                   sel_y sel + sel_height sel + TOOLBAR_GAP
                 else if topSpace \<ge> TOOLBAR_HEIGHT + TOOLBAR_GAP then
                   sel_y sel - TOOLBAR_HEIGHT - TOOLBAR_GAP
                 else max 0 (min (sel_y sel + sel_height sel + TOOLBAR_GAP)
                                 (screenH - TOOLBAR_HEIGHT)));
          margin = 8
      in if screenW - sel_x sel < TOOLBAR_WIDTH + margin then
           \<lparr>pos_left = Auto, pos_right = Px margin, pos_top = Px top\<rparr>
         else
           (let left = sel_x sel;
                left = (if left < margin then margin else left)
            in \<lparr>pos_left = Px left, pos_right = Auto, pos_top = Px top\<rparr>))"

section \<open>Annotation renderer (components/AnnotationEditor.vue, App.vue)\<close>

text \<open>
  The 2D context is the browser's; the model keeps the sequence of property writes and method
  calls made on it, in order. \<open>Rgb r g b\<close> stands for the template string
  \<^verbatim>\<open>`rgb(${r},${g},${b})`\<close>, \<open>Color c\<close> for a colour string taken from an annotation, and
  \<open>Font n\<close> for \<^verbatim>\<open>`${n}px sans-serif`\<close>. \<open>Canvas w h\<close> is the creation of a canvas element of
  that size.
\<close>

datatype fill_style = Color string | Rgb int int int

datatype canvas_cmd =
    Canvas real real
  | DrawImage string real real
  | StrokeStyle string
  | FillStyle fill_style
  | LineWidth real
  | Font real
  | StrokeRect real real real real
  | FillRect real real real real
  | FillText string real real
  | BeginPath
  | MoveTo real real
  | LineTo real real
  | ClosePath
  | Stroke
  | Fill

text \<open>
  \<^verbatim>\<open>Math.atan2(y, x)\<close> is the runtime's: the angle of the point \<open>(x, y)\<close> in \<open>(-\<pi>, \<pi>]\<close>, and 0
  at the origin. \<^verbatim>\<open>Math.random()\<close> is the runtime's too: a run is given the values it returns,
  in call order, as \<open>rnd 0, rnd 1, \<dots>\<close>, and the drawing state carries the number of calls made
  so far next to the calls on the context.
\<close>

definition atan2 :: "real \<Rightarrow> real \<Rightarrow> real" where
  "atan2 y x =
     (if x > 0 then arctan (y / x)
      else if x < 0 then (if y \<ge> 0 then arctan (y / x) + pi else arctan (y / x) - pi)
      else if y > 0 then pi / 2
      else if y < 0 then - pi / 2
      else 0)"

type_synonym drawing = "canvas_cmd list \<times> nat"

definition valid_random :: "(nat \<Rightarrow> real) \<Rightarrow> bool" where
  "valid_random rnd = (\<forall>n. 0 \<le> rnd n \<and> rnd n < 1)"

definition drawArrow :: "Point \<Rightarrow> Point \<Rightarrow> canvas_cmd list \<Rightarrow> canvas_cmd list" where
  "drawArrow from to c =
     (let headLen = 15;
          angle = atan2 (pt_y to - pt_y from) (pt_x to - pt_x from)
      in c @ [BeginPath, MoveTo (pt_x from) (pt_y from), LineTo (pt_x to) (pt_y to), Stroke,
              BeginPath, MoveTo (pt_x to) (pt_y to),
              LineTo (pt_x to - headLen * cos (angle - pi / 6))
                     (pt_y to - headLen * sin (angle - pi / 6)),
              LineTo (pt_x to - headLen * cos (angle + pi / 6))
                     (pt_y to - headLen * sin (angle + pi / 6)),
              ClosePath, Fill])"

definition blockSize :: real where "blockSize = 10"

text \<open>
  The two nested \<^verbatim>\<open>for\<close> loops over the blocks, the same in \<^verbatim>\<open>drawMosaic\<close> and in \<^verbatim>\<open>confirm\<close>:
  \<open>mosaic_j\<close> is the inner loop from its counter \<open>j\<close> on, \<open>mosaic_i\<close> the outer one from \<open>i\<close> on.
\<close>

function mosaic_j ::
  "(nat \<Rightarrow> real) \<Rightarrow> real \<Rightarrow> real \<Rightarrow> real \<Rightarrow> real \<Rightarrow> real \<Rightarrow> drawing \<Rightarrow> drawing" where
  "mosaic_j rnd x y i h j (c, k) =
     (if j < h then
        (let gray = \<lfloor>rnd k * 100\<rfloor> + 100
         in mosaic_j rnd x y i h (j + blockSize)
              (c @ [FillStyle (Rgb gray gray gray), FillRect (x + i) (y + j) blockSize blockSize],
               k + 1))
      else (c, k))"
  by pat_completeness auto
termination
proof (relation "measure (\<lambda>(rnd, x, y, i, h, j, st). nat \<lceil>(h - j) / 10\<rceil>)", goal_cases)
  case 1
  show ?case by simp
next
  case (2 rnd x y i h j c k gray)
  then have "0 < (h - j) / 10" by simp
  then have pos: "0 < \<lceil>(h - j) / 10\<rceil>" by simp
  have e: "(h - (j + 10)) / 10 = (h - j) / 10 - 1"
    by (simp add: field_simps)
  have "\<lceil>(h - (j + 10)) / 10\<rceil> = \<lceil>(h - j) / 10\<rceil> - 1"
    unfolding e by (rule ceiling_diff_one)
  with pos show ?case by (simp add: blockSize_def)
qed

function mosaic_i ::
  "(nat \<Rightarrow> real) \<Rightarrow> real \<Rightarrow> real \<Rightarrow> real \<Rightarrow> real \<Rightarrow> real \<Rightarrow> drawing \<Rightarrow> drawing" where
  "mosaic_i rnd x y w h i d =
     (if i < w then mosaic_i rnd x y w h (i + blockSize) (mosaic_j rnd x y i h 0 d) else d)"
  by pat_completeness auto
termination
proof (relation "measure (\<lambda>(rnd, x, y, w, h, i, d). nat \<lceil>(w - i) / 10\<rceil>)", goal_cases)
  case 1
  show ?case by simp
next
  case (2 rnd x y w h i d)
  then have "0 < (w - i) / 10" by simp
  then have pos: "0 < \<lceil>(w - i) / 10\<rceil>" by simp
  have e: "(w - (i + 10)) / 10 = (w - i) / 10 - 1"
    by (simp add: field_simps)
  have "\<lceil>(w - (i + 10)) / 10\<rceil> = \<lceil>(w - i) / 10\<rceil> - 1"
    unfolding e by (rule ceiling_diff_one)
  with pos show ?case by (simp add: blockSize_def)
qed

text \<open>
  The loop equations are unfolded one iteration at a time in the proofs, not by the simplifier.
\<close>

declare mosaic_j.simps [simp del] mosaic_i.simps [simp del]

definition drawMosaic :: "(nat \<Rightarrow> real) \<Rightarrow> Point \<Rightarrow> Point \<Rightarrow> drawing \<Rightarrow> drawing" where
  "drawMosaic rnd from to d =
     (let x = min (pt_x from) (pt_x to);
          y = min (pt_y from) (pt_y to);
          w = \<bar>pt_x to - pt_x from\<bar>;
          h = \<bar>pt_y to - pt_y from\<bar>
      in mosaic_i rnd x y w h 0 d)"

text \<open>
  \<^verbatim>\<open>a.text\<close> as a condition: present and not the empty string. \<^verbatim>\<open>a.style.fontSize || 16\<close>: 16
  when the size is absent or 0.
\<close>

definition truthy_text :: "string option \<Rightarrow> bool" where
  "truthy_text t = (case t of None \<Rightarrow> False | Some v \<Rightarrow> v \<noteq> [])"

definition fontSize_or_16 :: "real option \<Rightarrow> real" where
  "fontSize_or_16 f = (case f of None \<Rightarrow> 16 | Some n \<Rightarrow> if n = 0 then 16 else n)"

definition set_style :: "Annotation \<Rightarrow> canvas_cmd list \<Rightarrow> canvas_cmd list" where
  "set_style a c =
     c @ [StrokeStyle (color (style a)), FillStyle (Color (color (style a))),
          LineWidth (lineWidth (style a))]"

text \<open>\<^verbatim>\<open>drawAnnotation\<close> of the editor, on a context that exists.\<close>

definition drawAnnotation :: "(nat \<Rightarrow> real) \<Rightarrow> Annotation \<Rightarrow> drawing \<Rightarrow> drawing" where
  "drawAnnotation rnd a d =
     (let c = set_style a (fst d); k = snd d in
      case ann_type a of
        Rect \<Rightarrow>
          if length (points a) \<ge> 2 then
            (let p1 = points a ! 0; p2 = points a ! 1
             in (c @ [StrokeRect (pt_x p1) (pt_y p1) (pt_x p2 - pt_x p1) (pt_y p2 - pt_y p1)], k))
          else (c, k)
      | Arrow \<Rightarrow>
          if length (points a) \<ge> 2 then (drawArrow (points a ! 0) (points a ! 1) c, k)
          else (c, k)
      | Text \<Rightarrow>
          if length (points a) \<ge> 1 \<and> truthy_text (ann_text a) then
            (c @ [Font (fontSize_or_16 (fontSize (style a))),
                  FillText (the (ann_text a)) (pt_x (points a ! 0)) (pt_y (points a ! 0))], k)
          else (c, k)
      | Mosaic \<Rightarrow>
          if length (points a) \<ge> 2 then drawMosaic rnd (points a ! 0) (points a ! 1) (c, k)
          else (c, k)
      | Select \<Rightarrow> (c, k))"

text \<open>
  The callback of \<^verbatim>\<open>annotations.value.forEach\<close> in \<^verbatim>\<open>confirm\<close> (App.vue), which repeats the
  drawing code inline. Its text branch reads \<^verbatim>\<open>a.points[0].x\<close> without a length test and throws
  a TypeError on an empty point list.
\<close>

definition confirm_draw :: "(nat \<Rightarrow> real) \<Rightarrow> Annotation \<Rightarrow> drawing \<Rightarrow> js_error + drawing" where
  "confirm_draw rnd a d =
     (let c = set_style a (fst d); k = snd d in
      if ann_type a = Rect \<and> length (points a) \<ge> 2 then
        (let p1 = points a ! 0; p2 = points a ! 1
         in Inr (c @ [StrokeRect (pt_x p1) (pt_y p1) (pt_x p2 - pt_x p1) (pt_y p2 - pt_y p1)], k))
      else if ann_type a = Arrow \<and> length (points a) \<ge> 2 then
        (let from = points a ! 0; to = points a ! 1;
             headLen = 15;
             angle = atan2 (pt_y to - pt_y from) (pt_x to - pt_x from)
         in Inr (c @ [BeginPath, MoveTo (pt_x from) (pt_y from), LineTo (pt_x to) (pt_y to), Stroke,
                      BeginPath, MoveTo (pt_x to) (pt_y to),
                      LineTo (pt_x to - headLen * cos (angle - pi / 6))
                             (pt_y to - headLen * sin (angle - pi / 6)),
                      LineTo (pt_x to - headLen * cos (angle + pi / 6))
                             (pt_y to - headLen * sin (angle + pi / 6)),
                      ClosePath, Fill], k))
      else if ann_type a = Text \<and> truthy_text (ann_text a) then
        (case points a of
           [] \<Rightarrow> Inl TypeError
         | p # _ \<Rightarrow>
             Inr (c @ [Font (fontSize_or_16 (fontSize (style a))),
                       FillText (the (ann_text a)) (pt_x p) (pt_y p)], k))
      else if ann_type a = Mosaic \<and> length (points a) \<ge> 2 then
        (let from = points a ! 0; to = points a ! 1;
             x = min (pt_x from) (pt_x to);
             y = min (pt_y from) (pt_y to);
             w = \<bar>pt_x to - pt_x from\<bar>;
             h = \<bar>pt_y to - pt_y from\<bar>
         in Inr (mosaic_i rnd x y w h 0 (c, k)))
      else Inr (c, k))"

fun confirm_forEach :: "(nat \<Rightarrow> real) \<Rightarrow> Annotation list \<Rightarrow> drawing \<Rightarrow> js_error + drawing" where
  "confirm_forEach rnd [] d = Inr d"
| "confirm_forEach rnd (a # as) d =
     (case confirm_draw rnd a d of Inl e \<Rightarrow> Inl e | Inr d' \<Rightarrow> confirm_forEach rnd as d')"

text \<open>
  The canvas part of \<^verbatim>\<open>confirm\<close>: a canvas of the selection's size, the cropped image drawn at
  the origin, then every annotation in list order. The result is the sequence of calls that
  determines the exported raster.
\<close>

definition confirm_canvas ::
  "Selection \<Rightarrow> string \<Rightarrow> Annotation list \<Rightarrow> (nat \<Rightarrow> real) \<Rightarrow> js_error + canvas_cmd list" where
  "confirm_canvas sel croppedImage anns rnd =
     (case confirm_forEach rnd anns
             ([Canvas (sel_width sel) (sel_height sel), DrawImage croppedImage 0 0], 0) of
        Inl e \<Rightarrow> Inl e
      | Inr d \<Rightarrow> Inr (fst d))"

text \<open>
  Predicates on annotations and on call sequences used to state the compositor's properties: a
  mosaic annotation that paints at least one block (two points that differ in both
  coordinates); an annotation on which the text branch of \<^verbatim>\<open>confirm\<close> does not throw; and a call
  sequence in which every \<open>rgb(r,g,b)\<close> fill style is a gray with its value in a given set.
\<close>

definition mosaic_has_blocks :: "Annotation \<Rightarrow> bool" where
  "mosaic_has_blocks m =
     (ann_type m = Mosaic \<and> 2 \<le> length (points m) \<and>
      pt_x (points m ! 0) \<noteq> pt_x (points m ! 1) \<and> pt_y (points m ! 0) \<noteq> pt_y (points m ! 1))"

definition text_has_point :: "Annotation \<Rightarrow> bool" where
  "text_has_point a = (ann_type a \<noteq> Text \<or> points a \<noteq> [])"

definition grays_in :: "int set \<Rightarrow> canvas_cmd list \<Rightarrow> bool" where
  "grays_in S c = (\<forall>r g b. FillStyle (Rgb r g b) \<in> set c \<longrightarrow> r = g \<and> g = b \<and> r \<in> S)"

text \<open>A text and a mosaic annotation for the concrete runs below.\<close>

definition annT :: Annotation where
  "annT = \<lparr>ann_id = ''3'', ann_type = Text, points = [\<lparr>pt_x = 30, pt_y = 60\<rparr>],
            style = \<lparr>color = ''#000000'', lineWidth = 3, fontSize = Some 16\<rparr>,
            ann_text = Some ''note''\<rparr>"

definition annM :: Annotation where
  "annM = \<lparr>ann_id = ''4'', ann_type = Mosaic,
            points = [\<lparr>pt_x = 60, pt_y = 20\<rparr>, \<lparr>pt_x = 45, pt_y = 15\<rparr>],
            style = \<lparr>color = ''#ff0000'', lineWidth = 3, fontSize = None\<rparr>,
            ann_text = None\<rparr>"

section \<open>Annotation editor events (components/AnnotationEditor.vue)\<close>

text \<open>
  The props the handlers read, and the component's refs. \<open>has_ctx\<close> says whether \<^verbatim>\<open>ctx.value\<close>
  has been set by the mount hook. The handlers take the props as they are when the event
  arrives, the position \<^verbatim>\<open>getPos(e)\<close>, and the string \<^verbatim>\<open>Date.now().toString()\<close>; \<^verbatim>\<open>onMouseUp\<close> and
  \<^verbatim>\<open>submitText\<close> return the payload of the \<^verbatim>\<open>add-annotation\<close> event when they emit one. The
  preview that \<^verbatim>\<open>onMouseMove\<close> paints does not change the refs.
\<close>

record Props =
  currentTool :: ToolType
  currentColor :: string
  prop_lineWidth :: real

record Editor =
  has_ctx :: bool
  isDrawing :: bool
  ed_startPoint :: Point
  currentPoints :: "Point list"
  textInput :: string
  textPosition :: "Point option"

definition editor_setup :: "bool \<Rightarrow> Editor" where
  "editor_setup ctx =
     \<lparr>has_ctx = ctx, isDrawing = False, ed_startPoint = \<lparr>pt_x = 0, pt_y = 0\<rparr>,
      currentPoints = [], textInput = [], textPosition = None\<rparr>"

definition editor_onMouseDown :: "Props \<Rightarrow> Point \<Rightarrow> Editor \<Rightarrow> Editor" where
  "editor_onMouseDown props pos s =
     (if currentTool props = Select then s
      else if currentTool props = Text then s\<lparr>textPosition := Some pos\<rparr>
      else s\<lparr>isDrawing := True, ed_startPoint := pos, currentPoints := [pos]\<rparr>)"

definition editor_onMouseMove :: "Props \<Rightarrow> Point \<Rightarrow> Editor \<Rightarrow> Editor" where
  "editor_onMouseMove props pos s =
     (if \<not> isDrawing s \<or> \<not> has_ctx s then s
      else s\<lparr>currentPoints := [ed_startPoint s, pos]\<rparr>)"

definition editor_onMouseUp :: "Props \<Rightarrow> string \<Rightarrow> Editor \<Rightarrow> Annotation option \<times> Editor" where
  "editor_onMouseUp props now s =
     (if \<not> isDrawing s then (None, s)
      else
        (if length (currentPoints s) \<ge> 2 then
           Some \<lparr>ann_id = now, ann_type = currentTool props, points = currentPoints s,
                 style = \<lparr>color = currentColor props, lineWidth = prop_lineWidth props,
                          fontSize = None\<rparr>,
                 ann_text = None\<rparr>
         else None,
         s\<lparr>isDrawing := False, currentPoints := []\<rparr>))"

definition submitText :: "Props \<Rightarrow> string \<Rightarrow> Editor \<Rightarrow> Annotation option \<times> Editor" where
  "submitText props now s =
     (case textPosition s of
        Some pos \<Rightarrow>
          if textInput s \<noteq> [] then
            (Some \<lparr>ann_id = now, ann_type = Text, points = [pos],
                   style = \<lparr>color = currentColor props, lineWidth = prop_lineWidth props,
                            fontSize = Some 16\<rparr>,
                   ann_text = Some (textInput s)\<rparr>,
             s\<lparr>textInput := [], textPosition := None\<rparr>)
          else (None, s)
      | None \<Rightarrow> (None, s))"

text \<open>
  The events of the template: the four canvas listeners (\<^verbatim>\<open>mouseleave\<close> calls \<^verbatim>\<open>onMouseUp\<close>), and
  on the text input typing (\<^verbatim>\<open>v-model\<close>), Enter and Escape. Each event comes with the props of
  that moment; \<open>editor_run\<close> collects the emitted annotations in order.
\<close>

datatype editor_event =
    MouseDown Point
  | MouseMove Point
  | MouseUp string
  | MouseLeave string
  | Input string
  | KeyupEnter string
  | KeyupEsc

fun editor_step :: "Props \<times> editor_event \<Rightarrow> Editor \<Rightarrow> Annotation option \<times> Editor" where
  "editor_step (props, MouseDown pos) s = (None, editor_onMouseDown props pos s)"
| "editor_step (props, MouseMove pos) s = (None, editor_onMouseMove props pos s)"
| "editor_step (props, MouseUp now) s = editor_onMouseUp props now s"
| "editor_step (props, MouseLeave now) s = editor_onMouseUp props now s"
| "editor_step (props, Input v) s = (None, s\<lparr>textInput := v\<rparr>)"
| "editor_step (props, KeyupEnter now) s = submitText props now s"
| "editor_step (props, KeyupEsc) s = (None, s\<lparr>textPosition := None\<rparr>)"

fun editor_run :: "(Props \<times> editor_event) list \<Rightarrow> Editor \<Rightarrow> Annotation list" where
  "editor_run [] s = []"
| "editor_run (ev # evs) s =
     (case editor_step ev s of
        (None, s') \<Rightarrow> editor_run evs s'
      | (Some a, s') \<Rightarrow> a # editor_run evs s')"

text \<open>
  The point-count invariant of the data model on an emitted annotation: a text annotation has
  exactly one point and a non-empty text, a rect, arrow or mosaic annotation exactly two points.
  \<open>release_tool_not_text\<close> says of an event that, if it ends a drag (\<^verbatim>\<open>mouseup\<close> or \<^verbatim>\<open>mouseleave\<close>), the
  tool prop is not \<^verbatim>\<open>'text'\<close> at that moment.
\<close>

definition point_count_invariant :: "Annotation \<Rightarrow> bool" where
  "point_count_invariant a =
     (case ann_type a of
        Text \<Rightarrow> length (points a) = 1 \<and> truthy_text (ann_text a)
      | Select \<Rightarrow> True
      | _ \<Rightarrow> length (points a) = 2)"

definition release_tool_not_text :: "Props \<times> editor_event \<Rightarrow> bool" where
  "release_tool_not_text ev =
     (case snd ev of
        MouseUp _ \<Rightarrow> currentTool (fst ev) \<noteq> Text
      | MouseLeave _ \<Rightarrow> currentTool (fst ev) \<noteq> Text
      | _ \<Rightarrow> True)"

section \<open>Properties of the annotation history\<close>

lemma slice0_in_range:
  "0 \<le> i \<Longrightarrow> i < int (length xs) \<Longrightarrow> slice0 xs (i + 1) = take (nat i + 1) xs"
  by (simp add: slice0_def Let_def min_def nat_add_distrib)

lemma saveHistory_inv:
  "0 \<le> historyIndex s \<Longrightarrow> historyIndex s < int (length (history s)) \<Longrightarrow>
   hist_inv (saveHistory s)"
proof -
  assume a: "0 \<le> historyIndex s" "historyIndex s < int (length (history s))"
  define h1 where "h1 = slice0 (history s) (historyIndex s + 1)"
  from a have "length h1 = nat (historyIndex s) + 1"
    by (simp add: h1_def slice0_in_range)
  with a have "(h1 @ [annotations s]) ! nat (1 + historyIndex s) = annotations s"
    by (simp add: nth_append nat_add_distrib)
  with a \<open>length h1 = nat (historyIndex s) + 1\<close> show ?thesis
    by (simp add: saveHistory_def hist_inv_def js_index_def Let_def h1_def [symmetric])
qed

lemma addAnnotation_inv: "hist_inv s \<Longrightarrow> hist_inv (addAnnotation a s)"
  unfolding addAnnotation_def by (rule saveHistory_inv) (simp_all add: hist_inv_def)

lemma clear_inv: "hist_inv s \<Longrightarrow> hist_inv (clear s)"
  unfolding clear_def by (rule saveHistory_inv) (simp_all add: hist_inv_def)

lemma undo_inv: "hist_inv s \<Longrightarrow> \<exists>s'. undo s = Inr s' \<and> hist_inv s'"
  by (auto simp: undo_def hist_inv_def js_index_def Let_def)

lemma redo_inv: "hist_inv s \<Longrightarrow> \<exists>s'. redo s = Inr s' \<and> hist_inv s'"
  by (auto simp: redo_def hist_inv_def js_index_def Let_def)

lemma apply_op_inv: "hist_inv s \<Longrightarrow> \<exists>s'. apply_op c s = Inr s' \<and> hist_inv s'"
  by (cases c) (simp_all add: addAnnotation_inv clear_inv undo_inv redo_inv)

lemma run_ops_inv: "hist_inv s \<Longrightarrow> \<exists>s'. run_ops cs s = Inr s' \<and> hist_inv s'"
proof (induction cs arbitrary: s)
  case Nil
  then show ?case by simp
next
  case (Cons c cs)
  from apply_op_inv [OF Cons.prems] obtain s1
    where s1: "apply_op c s = Inr s1" "hist_inv s1" by blast
  from Cons.IH [OF s1(2)] s1(1) show ?case by simp
qed

lemma useAnnotation_inv: "hist_inv useAnnotation"
  by (simp add: useAnnotation_def hist_inv_def js_index_def)

text \<open>
  Claim C1. Every sequence of addAnnotation / undo / redo / clear calls on a freshly created
  history (one empty snapshot, index 0) runs without an error, and the state it reaches
  (hence the state after each call, a prefix being a sequence too) has
  \<open>0 \<le> historyIndex < length history\<close>, canUndo exactly when \<open>historyIndex > 0\<close>, canRedo
  exactly when \<open>historyIndex < length history - 1\<close>, and the current annotation list equal to
  \<open>history[historyIndex]\<close>.
\<close>

theorem history_invariant:
  "\<exists>s. run_ops cs useAnnotation = Inr s \<and>
       0 \<le> historyIndex s \<and> historyIndex s < int (length (history s)) \<and>
       canUndo s = (historyIndex s > 0) \<and>
       canRedo s = (historyIndex s < int (length (history s)) - 1) \<and>
       js_index (history s) (historyIndex s) = Some (annotations s)"
proof -
  from run_ops_inv [OF useAnnotation_inv] obtain s
    where "run_ops cs useAnnotation = Inr s" "hist_inv s" by blast
  then show ?thesis
    by (auto simp: hist_inv_def canUndo_def canRedo_def)
qed

lemma saveHistory_index: "historyIndex (saveHistory s) = int (length (history (saveHistory s))) - 1"
  by (simp add: saveHistory_def Let_def)

text \<open>
  Claim C2. addAnnotation after undo discards the redo branch: from snapshots \<open>[[], [A]]\<close> at
  index 1, undo moves to index 0 and addAnnotation B then leaves snapshots \<open>[[], [B]]\<close> at
  index 1; and right after any addAnnotation, on any state, canRedo is false and redo changes
  nothing.
\<close>

theorem add_after_undo_discards_redo:
  "undo \<lparr>annotations = [A], history = [[], [A]], historyIndex = 1\<rparr>
     = Inr \<lparr>annotations = [], history = [[], [A]], historyIndex = 0\<rparr> \<and>
   addAnnotation B \<lparr>annotations = [], history = [[], [A]], historyIndex = 0\<rparr>
     = \<lparr>annotations = [B], history = [[], [B]], historyIndex = 1\<rparr> \<and>
   \<not> canRedo (addAnnotation a s) \<and>
   redo (addAnnotation a s) = Inr (addAnnotation a s)"
proof -
  have u: "undo \<lparr>annotations = [A], history = [[], [A]], historyIndex = 1\<rparr>
             = Inr \<lparr>annotations = [], history = [[], [A]], historyIndex = 0\<rparr>"
    by (simp add: undo_def js_index_def)
  have b: "addAnnotation B \<lparr>annotations = [], history = [[], [A]], historyIndex = 0\<rparr>
             = \<lparr>annotations = [B], history = [[], [B]], historyIndex = 1\<rparr>"
    by (simp add: addAnnotation_def saveHistory_def slice0_def)
  have i: "historyIndex (addAnnotation a s) = int (length (history (addAnnotation a s))) - 1"
    unfolding addAnnotation_def by (rule saveHistory_index)
  from i have c: "\<not> canRedo (addAnnotation a s)"
    by (simp add: canRedo_def)
  from i have r: "redo (addAnnotation a s) = Inr (addAnnotation a s)"
    by (simp add: redo_def)
  from u b c r show ?thesis by blast
qed

text \<open>
  Claim C9. clear is itself undoable: on a history that satisfies its invariant, whatever its
  current annotation list (for instance \<open>[A, B]\<close>), clear commits a new empty snapshot after the
  current one, and undo then restores exactly the list that was current before the clear.
\<close>

theorem clear_then_undo_restores:
  assumes "hist_inv s"
  shows "annotations (clear s) = [] \<and>
         history (clear s) = take (nat (historyIndex s) + 1) (history s) @ [[]] \<and>
         historyIndex (clear s) = historyIndex s + 1 \<and>
         (\<exists>s'. undo (clear s) = Inr s' \<and> annotations s' = annotations s)"
proof -
  from assms have r: "0 \<le> historyIndex s" "historyIndex s < int (length (history s))"
    and cur: "history s ! nat (historyIndex s) = annotations s"
    by (simp_all add: hist_inv_def js_index_def split: if_splits)
  from r have sl: "slice0 (history s) (historyIndex s + 1) = take (nat (historyIndex s) + 1) (history s)"
    by (rule slice0_in_range)
  from r have len: "length (take (nat (historyIndex s) + 1) (history s)) = nat (historyIndex s) + 1"
    by simp
  have a: "annotations (clear s) = []"
    by (simp add: clear_def saveHistory_def Let_def)
  have h: "history (clear s) = take (nat (historyIndex s) + 1) (history s) @ [[]]"
    by (simp add: clear_def saveHistory_def Let_def sl)
  from r len have i: "historyIndex (clear s) = historyIndex s + 1"
    by (simp add: clear_def saveHistory_def Let_def sl)
  from r len have nth: "history (clear s) ! nat (historyIndex s) = history s ! nat (historyIndex s)"
    by (simp add: h nth_append)
  from r len have "js_index (history (clear s)) (historyIndex s) = Some (annotations s)"
    by (simp add: js_index_def nth cur) (simp add: h)
  with r i have "undo (clear s) = Inr ((clear s)\<lparr>historyIndex := historyIndex s, annotations := annotations s\<rparr>)"
    by (simp add: undo_def Let_def)
  then have "\<exists>s'. undo (clear s) = Inr s' \<and> annotations s' = annotations s"
    by simp
  with a h i show ?thesis by blast
qed

theorem clear_then_undo_restores_witness:
  "hist_inv \<lparr>annotations = [annA, annB], history = [[], [annA], [annA, annB]], historyIndex = 2\<rparr> \<and>
   annotations (clear \<lparr>annotations = [annA, annB], history = [[], [annA], [annA, annB]],
                       historyIndex = 2\<rparr>) = [] \<and>
   (\<exists>s'. undo (clear \<lparr>annotations = [annA, annB], history = [[], [annA], [annA, annB]],
                        historyIndex = 2\<rparr>) = Inr s' \<and>
         annotations s' = [annA, annB])"
proof -
  have inv: "hist_inv \<lparr>annotations = [annA, annB], history = [[], [annA], [annA, annB]],
                       historyIndex = 2\<rparr>"
    by (simp add: hist_inv_def js_index_def)
  from clear_then_undo_restores [OF inv] inv show ?thesis by simp
qed

section \<open>Properties of the region selector\<close>

lemma drag_snoc: "drag a (ms @ [m]) s = selector_onMouseMove m (drag a ms s)"
  by (simp add: drag_def)

lemma drag_state:
  "drag a ms s = s\<lparr>isSelecting := True, startPoint := a, endPoint := last (a # ms)\<rparr>"
proof (induction ms rule: rev_induct)
  case Nil
  show ?case by (simp add: drag_def selector_onMouseDown_def)
next
  case (snoc m ms)
  show ?case
    by (simp add: drag_snoc snoc.IH selector_onMouseMove_def)
qed

text \<open>
  Claim C3. During a drag (pointer-down at the anchor, then any pointer moves, the last position
  being the current point) the live Selection is \<open>{x: min(anchor.x, cur.x), y: min(anchor.y,
  cur.y), width: |cur.x - anchor.x|, height: |cur.y - anchor.y|}\<close>; width and height are not
  negative and \<open>(x, y)\<close> lies left of and above both points, whatever the direction; the drags \<open>(120,80) \<rightarrow> (40,30)\<close> and
  \<open>(40,30) \<rightarrow> (120,80)\<close> both give \<open>{x: 40, y: 30, width: 80, height: 50}\<close>.
\<close>

theorem selection_during_drag:
  "(let cur = last (anchor # moves); sel = selection (drag anchor moves s) in
      isSelecting (drag anchor moves s) \<and>
      sel = \<lparr>sel_x = min (pt_x anchor) (pt_x cur), sel_y = min (pt_y anchor) (pt_y cur),
             sel_width = \<bar>pt_x cur - pt_x anchor\<bar>, sel_height = \<bar>pt_y cur - pt_y anchor\<bar>\<rparr> \<and>
      0 \<le> sel_width sel \<and> 0 \<le> sel_height sel \<and>
      sel_x sel \<le> pt_x anchor \<and> sel_x sel \<le> pt_x cur \<and>
      sel_y sel \<le> pt_y anchor \<and> sel_y sel \<le> pt_y cur) \<and>
   selection (drag \<lparr>pt_x = 120, pt_y = 80\<rparr> [\<lparr>pt_x = 40, pt_y = 30\<rparr>] s)
     = \<lparr>sel_x = 40, sel_y = 30, sel_width = 80, sel_height = 50\<rparr> \<and>
   selection (drag \<lparr>pt_x = 40, pt_y = 30\<rparr> [\<lparr>pt_x = 120, pt_y = 80\<rparr>] s)
     = \<lparr>sel_x = 40, sel_y = 30, sel_width = 80, sel_height = 50\<rparr>"
proof -
  have gen: "selection (drag a ms t) =
      \<lparr>sel_x = min (pt_x a) (pt_x (last (a # ms))), sel_y = min (pt_y a) (pt_y (last (a # ms))),
       sel_width = \<bar>pt_x (last (a # ms)) - pt_x a\<bar>,
       sel_height = \<bar>pt_y (last (a # ms)) - pt_y a\<bar>\<rparr>" for a ms t
    by (simp add: drag_state selection_def)
  have on: "isSelecting (drag anchor moves s)"
    by (simp add: drag_state)
  have e1: "selection (drag \<lparr>pt_x = 120, pt_y = 80\<rparr> [\<lparr>pt_x = 40, pt_y = 30\<rparr>] s)
              = \<lparr>sel_x = 40, sel_y = 30, sel_width = 80, sel_height = 50\<rparr>"
    by (simp add: gen)
  have e2: "selection (drag \<lparr>pt_x = 40, pt_y = 30\<rparr> [\<lparr>pt_x = 120, pt_y = 80\<rparr>] s)
              = \<lparr>sel_x = 40, sel_y = 30, sel_width = 80, sel_height = 50\<rparr>"
    by (simp add: gen)
  from on e1 e2 show ?thesis
    unfolding Let_def gen by simp
qed

text \<open>
  Claim C4. On the pointer-up that ends a drag a Selection is emitted exactly when its width
  and its height both exceed 10, the emitted value is the live Selection, and the selector is
  no longer dragging afterwards either way; a drag of width 10 and height 10 emits nothing, one
  of width 11 and height 11 emits its Selection.
\<close>

theorem mouse_up_threshold:
  assumes "isSelecting s"
  shows "fst (selector_onMouseUp s) =
           (if sel_width (selection s) > 10 \<and> sel_height (selection s) > 10
            then Some (selection s) else None) \<and>
         (fst (selector_onMouseUp s) \<noteq> None) =
           (sel_width (selection s) > 10 \<and> sel_height (selection s) > 10) \<and>
         \<not> isSelecting (snd (selector_onMouseUp s)) \<and>
         selector_onMouseUp (drag \<lparr>pt_x = 100, pt_y = 100\<rparr> [\<lparr>pt_x = 110, pt_y = 110\<rparr>] s)
           = (None, s\<lparr>isSelecting := False, startPoint := \<lparr>pt_x = 100, pt_y = 100\<rparr>,
                      endPoint := \<lparr>pt_x = 110, pt_y = 110\<rparr>\<rparr>) \<and>
         selector_onMouseUp (drag \<lparr>pt_x = 100, pt_y = 100\<rparr> [\<lparr>pt_x = 111, pt_y = 111\<rparr>] s)
           = (Some \<lparr>sel_x = 100, sel_y = 100, sel_width = 11, sel_height = 11\<rparr>,
              s\<lparr>isSelecting := False, startPoint := \<lparr>pt_x = 100, pt_y = 100\<rparr>,
                 endPoint := \<lparr>pt_x = 111, pt_y = 111\<rparr>\<rparr>)"
proof -
  from assms have emit: "fst (selector_onMouseUp s) =
      (if sel_width (selection s) > 10 \<and> sel_height (selection s) > 10
       then Some (selection s) else None)"
    by (simp add: selector_onMouseUp_def hasSelection_def)
  then have iff: "(fst (selector_onMouseUp s) \<noteq> None) =
      (sel_width (selection s) > 10 \<and> sel_height (selection s) > 10)"
    by simp
  have idle: "\<not> isSelecting (snd (selector_onMouseUp s))"
    by (simp add: selector_onMouseUp_def)
  have e10: "selector_onMouseUp (drag \<lparr>pt_x = 100, pt_y = 100\<rparr> [\<lparr>pt_x = 110, pt_y = 110\<rparr>] s)
      = (None, s\<lparr>isSelecting := False, startPoint := \<lparr>pt_x = 100, pt_y = 100\<rparr>,
                 endPoint := \<lparr>pt_x = 110, pt_y = 110\<rparr>\<rparr>)"
    by (simp add: drag_state selector_onMouseUp_def hasSelection_def selection_def)
  have e11: "selector_onMouseUp (drag \<lparr>pt_x = 100, pt_y = 100\<rparr> [\<lparr>pt_x = 111, pt_y = 111\<rparr>] s)
      = (Some \<lparr>sel_x = 100, sel_y = 100, sel_width = 11, sel_height = 11\<rparr>,
         s\<lparr>isSelecting := False, startPoint := \<lparr>pt_x = 100, pt_y = 100\<rparr>,
            endPoint := \<lparr>pt_x = 111, pt_y = 111\<rparr>\<rparr>)"
    by (simp add: drag_state selector_onMouseUp_def hasSelection_def selection_def)
  from emit iff idle e10 e11 show ?thesis by blast
qed

theorem mouse_up_threshold_witness:
  "isSelecting (drag \<lparr>pt_x = 3, pt_y = 4\<rparr> [\<lparr>pt_x = 40, pt_y = 15\<rparr>] selector_setup) \<and>
   fst (selector_onMouseUp (drag \<lparr>pt_x = 3, pt_y = 4\<rparr> [\<lparr>pt_x = 40, pt_y = 15\<rparr>] selector_setup))
     = Some \<lparr>sel_x = 3, sel_y = 4, sel_width = 37, sel_height = 11\<rparr> \<and>
   \<not> isSelecting (snd (selector_onMouseUp
        (drag \<lparr>pt_x = 3, pt_y = 4\<rparr> [\<lparr>pt_x = 40, pt_y = 15\<rparr>] selector_setup)))"
proof -
  have d: "isSelecting (drag \<lparr>pt_x = 3, pt_y = 4\<rparr> [\<lparr>pt_x = 40, pt_y = 15\<rparr>] selector_setup)"
    by (simp add: drag_state)
  have v: "selection (drag \<lparr>pt_x = 3, pt_y = 4\<rparr> [\<lparr>pt_x = 40, pt_y = 15\<rparr>] selector_setup)
             = \<lparr>sel_x = 3, sel_y = 4, sel_width = 37, sel_height = 11\<rparr>"
    by (simp add: drag_state selection_def)
  from mouse_up_threshold [OF d] d show ?thesis
    by (simp add: v)
qed

section \<open>Properties of the panel layout\<close>

lemma toolbar_top:
  "pos_top (toolbarPosition screenW screenH sel) =
     Px (if screenH - (sel_y sel + sel_height sel) \<ge> TOOLBAR_HEIGHT + TOOLBAR_GAP then
           sel_y sel + sel_height sel + TOOLBAR_GAP
         else if sel_y sel \<ge> TOOLBAR_HEIGHT + TOOLBAR_GAP then
           sel_y sel - TOOLBAR_HEIGHT - TOOLBAR_GAP
         else max 0 (min (sel_y sel + sel_height sel + TOOLBAR_GAP) (screenH - TOOLBAR_HEIGHT)))"
  by (simp add: toolbarPosition_def Let_def)

text \<open>
  Claim C7. With \<open>H\<^sub>t\<close> = TOOLBAR_HEIGHT = 48, \<open>W\<^sub>t\<close> = TOOLBAR_WIDTH = 580, gap = TOOLBAR_GAP = 10
  and margin = 8: the top of the tool panel is \<open>sel.y + sel.height + gap\<close> when
  \<open>screenH - (sel.y + sel.height) \<ge> H\<^sub>t + gap\<close>, else \<open>sel.y - H\<^sub>t - gap\<close> when
  \<open>sel.y \<ge> H\<^sub>t + gap\<close>, else \<open>max(0, min(sel.y + sel.height + gap, screenH - H\<^sub>t))\<close>; when
  \<open>screenW - sel.x < W\<^sub>t + margin\<close> the panel is anchored at \<open>right = margin\<close> with \<open>left\<close>
  automatic, otherwise at \<open>left = max(margin, sel.x)\<close> with \<open>right\<close> automatic; for screen
  width 1280 and \<open>sel.x = 950\<close>, \<open>330 < 588\<close> and the right anchoring is chosen.
\<close>

theorem toolbar_position_rule:
  "TOOLBAR_HEIGHT = 48 \<and> TOOLBAR_WIDTH = 580 \<and> TOOLBAR_GAP = 10 \<and>
   pos_top (toolbarPosition screenW screenH sel) =
     Px (if screenH - (sel_y sel + sel_height sel) \<ge> TOOLBAR_HEIGHT + TOOLBAR_GAP then
           sel_y sel + sel_height sel + TOOLBAR_GAP
         else if sel_y sel \<ge> TOOLBAR_HEIGHT + TOOLBAR_GAP then
           sel_y sel - TOOLBAR_HEIGHT - TOOLBAR_GAP
         else max 0 (min (sel_y sel + sel_height sel + TOOLBAR_GAP) (screenH - TOOLBAR_HEIGHT))) \<and>
   (pos_left (toolbarPosition screenW screenH sel), pos_right (toolbarPosition screenW screenH sel)) =
     (if screenW - sel_x sel < TOOLBAR_WIDTH + 8 then (Auto, Px 8)
      else (Px (max 8 (sel_x sel)), Auto)) \<and>
   (1280 - 950 < TOOLBAR_WIDTH + 8) \<and>
   pos_right (toolbarPosition 1280 screenH (sel\<lparr>sel_x := 950\<rparr>)) = Px 8 \<and>
   pos_left (toolbarPosition 1280 screenH (sel\<lparr>sel_x := 950\<rparr>)) = Auto"
proof -
  have cvals: "TOOLBAR_HEIGHT = 48 \<and> TOOLBAR_WIDTH = 580 \<and> TOOLBAR_GAP = 10"
    by (simp add: TOOLBAR_HEIGHT_def TOOLBAR_WIDTH_def TOOLBAR_GAP_def)
  have horiz: "(pos_left (toolbarPosition w h t), pos_right (toolbarPosition w h t)) =
     (if w - sel_x t < TOOLBAR_WIDTH + 8 then (Auto, Px 8) else (Px (max 8 (sel_x t)), Auto))"
    for w h t
    by (simp add: toolbarPosition_def Let_def max_def)
  have flip: "(1280::real) - 950 < TOOLBAR_WIDTH + 8"
    by (simp add: TOOLBAR_WIDTH_def)
  from horiz [of 1280 screenH "sel\<lparr>sel_x := 950\<rparr>"] flip
  have ex: "pos_right (toolbarPosition 1280 screenH (sel\<lparr>sel_x := 950\<rparr>)) = Px 8 \<and>
            pos_left (toolbarPosition 1280 screenH (sel\<lparr>sel_x := 950\<rparr>)) = Auto"
    by simp
  from cvals toolbar_top [of screenW screenH sel] horiz [of screenW screenH sel] flip ex
  show ?thesis by blast
qed

text \<open>
  Claim C8, as the spec states it: for viewport height 600, \<open>sel.y = 590\<close> and
  \<open>sel.height = 5\<close> the top of the tool panel would be 552. The code gives 532 there.
\<close>

theorem toolbar_top_552_counterexample:
  "pos_top (toolbarPosition 1280 600
      \<lparr>sel_x = 100, sel_y = 590, sel_width = 200, sel_height = 5\<rparr>) = Px 532 \<and>
   pos_top (toolbarPosition 1280 600
      \<lparr>sel_x = 100, sel_y = 590, sel_width = 200, sel_height = 5\<rparr>) \<noteq> Px 552"
  by (simp add: toolbar_top TOOLBAR_HEIGHT_def TOOLBAR_GAP_def)

text \<open>
  Claim C8, amended. For viewport height 600 and a Selection with \<open>sel.y = 590\<close> and
  \<open>sel.height = 5\<close> there is no room below (\<open>600 - 595 = 5 < 58\<close>) but there is room above
  (\<open>590 \<ge> 58\<close>), so the tool panel of height 48 is placed above the selection, at
  \<open>top = sel.y - 48 - 10 = 532\<close>, whatever the viewport width and the selection's \<open>x\<close> and
  \<open>width\<close>.
\<close>

theorem toolbar_top_above_532:
  "pos_top (toolbarPosition screenW 600 (sel\<lparr>sel_y := 590, sel_height := 5\<rparr>))
     = Px (590 - TOOLBAR_HEIGHT - TOOLBAR_GAP) \<and>
   590 - TOOLBAR_HEIGHT - TOOLBAR_GAP = 532 \<and>
   \<not> (600 - (590 + 5) \<ge> TOOLBAR_HEIGHT + TOOLBAR_GAP) \<and>
   590 \<ge> TOOLBAR_HEIGHT + TOOLBAR_GAP"
  by (simp add: toolbar_top TOOLBAR_HEIGHT_def TOOLBAR_GAP_def)

section \<open>Properties of the renderer\<close>

lemma sqrt3_bounds: "1732 / 1000 < sqrt 3 \<and> sqrt 3 < 17321 / 10000"
proof
  show "1732 / 1000 < sqrt 3"
    by (rule real_less_rsqrt) (simp add: power2_eq_square)
  show "sqrt 3 < 17321 / 10000"
    by (rule real_less_lsqrt) (simp_all add: power2_eq_square)
qed

lemma atan2_horizontal: "atan2 0 100 = 0"
  by (simp add: atan2_def)

text \<open>
  Claim C5. For an arrow from \<open>p0\<close> to \<open>p1\<close> with \<open>\<theta> = atan2(p1.y - p0.y, p1.x - p0.x)\<close>, the
  editor's \<^verbatim>\<open>drawArrow\<close> and the arrow branch of \<^verbatim>\<open>confirm\<close> both stroke the segment and then fill
  a closed path that starts at the tip \<open>p1\<close> and runs through the two wing vertices
  \<open>p1 - 15 (cos(\<theta> - \<pi>/6), sin(\<theta> - \<pi>/6))\<close> and \<open>p1 - 15 (cos(\<theta> + \<pi>/6), sin(\<theta> + \<pi>/6))\<close>. For
  the horizontal arrow \<open>(0,0) \<rightarrow> (100,0)\<close> the wings are \<open>(100 - 15 cos(\<pi>/6), 15 sin(\<pi>/6))\<close> and
  \<open>(100 - 15 cos(\<pi>/6), - 15 sin(\<pi>/6))\<close>, that is \<open>(100 - 15 \<surd>3 / 2, \<plusminus> 7.5)\<close> with
  \<open>|100 - 15 \<surd>3 / 2 - 87.01| < 0.001\<close>.
\<close>

theorem arrow_head_geometry:
  "(let \<theta> = atan2 (pt_y p1 - pt_y p0) (pt_x p1 - pt_x p0);
        shaft = [BeginPath, MoveTo (pt_x p0) (pt_y p0), LineTo (pt_x p1) (pt_y p1), Stroke];
        head = [BeginPath, MoveTo (pt_x p1) (pt_y p1),
                LineTo (pt_x p1 - 15 * cos (\<theta> - pi / 6)) (pt_y p1 - 15 * sin (\<theta> - pi / 6)),
                LineTo (pt_x p1 - 15 * cos (\<theta> + pi / 6)) (pt_y p1 - 15 * sin (\<theta> + pi / 6)),
                ClosePath, Fill];
        a' = a\<lparr>ann_type := Arrow, points := p0 # p1 # ps\<rparr>
    in drawArrow p0 p1 c = c @ shaft @ head \<and>
       drawAnnotation rnd a' (c, k) = (set_style a' c @ shaft @ head, k) \<and>
       confirm_draw rnd a' (c, k) = Inr (set_style a' c @ shaft @ head, k)) \<and>
   drawArrow \<lparr>pt_x = 0, pt_y = 0\<rparr> \<lparr>pt_x = 100, pt_y = 0\<rparr> [] =
     [BeginPath, MoveTo 0 0, LineTo 100 0, Stroke,
      BeginPath, MoveTo 100 0,
      LineTo (100 - 15 * cos (pi / 6)) (15 * sin (pi / 6)),
      LineTo (100 - 15 * cos (pi / 6)) (- 15 * sin (pi / 6)),
      ClosePath, Fill] \<and>
   15 * sin (pi / 6) = 7.5 \<and>
   \<bar>100 - 15 * cos (pi / 6) - 87.01\<bar> < 0.001"
proof -
  have general: "drawArrow p0 p1 c =
      c @ [BeginPath, MoveTo (pt_x p0) (pt_y p0), LineTo (pt_x p1) (pt_y p1), Stroke] @
          [BeginPath, MoveTo (pt_x p1) (pt_y p1),
           LineTo (pt_x p1 - 15 * cos (atan2 (pt_y p1 - pt_y p0) (pt_x p1 - pt_x p0) - pi / 6))
                  (pt_y p1 - 15 * sin (atan2 (pt_y p1 - pt_y p0) (pt_x p1 - pt_x p0) - pi / 6)),
           LineTo (pt_x p1 - 15 * cos (atan2 (pt_y p1 - pt_y p0) (pt_x p1 - pt_x p0) + pi / 6))
                  (pt_y p1 - 15 * sin (atan2 (pt_y p1 - pt_y p0) (pt_x p1 - pt_x p0) + pi / 6)),
           ClosePath, Fill]" for p0 p1 c
    by (simp add: drawArrow_def Let_def)
  have editor: "drawAnnotation rnd (a\<lparr>ann_type := Arrow, points := p0 # p1 # ps\<rparr>) (c, k) =
      (drawArrow p0 p1 (set_style (a\<lparr>ann_type := Arrow, points := p0 # p1 # ps\<rparr>) c), k)"
    by (simp add: drawAnnotation_def Let_def)
  have export: "confirm_draw rnd (a\<lparr>ann_type := Arrow, points := p0 # p1 # ps\<rparr>) (c, k) =
      Inr (drawArrow p0 p1 (set_style (a\<lparr>ann_type := Arrow, points := p0 # p1 # ps\<rparr>) c), k)"
    by (simp add: confirm_draw_def drawArrow_def Let_def)
  have horizontal: "drawArrow \<lparr>pt_x = 0, pt_y = 0\<rparr> \<lparr>pt_x = 100, pt_y = 0\<rparr> [] =
     [BeginPath, MoveTo 0 0, LineTo 100 0, Stroke,
      BeginPath, MoveTo 100 0,
      LineTo (100 - 15 * cos (pi / 6)) (15 * sin (pi / 6)),
      LineTo (100 - 15 * cos (pi / 6)) (- 15 * sin (pi / 6)),
      ClosePath, Fill]"
    by (simp add: general atan2_horizontal)
  have half: "15 * sin (pi / 6) = (7.5 :: real)"
    by (simp add: sin_30)
  from sqrt3_bounds have near: "\<bar>100 - 15 * cos (pi / 6) - 87.01\<bar> < (0.001 :: real)"
    by (simp add: cos_30 abs_less_iff)
  from horizontal half near show ?thesis
    unfolding Let_def editor export by (simp add: general)
qed

subsection \<open>Determinism of the compositor\<close>


lemma mosaic_j_step:
  "j < h \<Longrightarrow>
   mosaic_j rnd x y i h j (c, k) =
     mosaic_j rnd x y i h (j + blockSize)
       (c @ [FillStyle (Rgb (\<lfloor>rnd k * 100\<rfloor> + 100) (\<lfloor>rnd k * 100\<rfloor> + 100) (\<lfloor>rnd k * 100\<rfloor> + 100)),
             FillRect (x + i) (y + j) blockSize blockSize], k + 1)"
  by (subst mosaic_j.simps) (simp add: Let_def)

lemma mosaic_j_done: "\<not> j < h \<Longrightarrow> mosaic_j rnd x y i h j d = d"
  by (cases d) (simp add: mosaic_j.simps)

lemma mosaic_i_step:
  "i < w \<Longrightarrow>
   mosaic_i rnd x y w h i d = mosaic_i rnd x y w h (i + blockSize) (mosaic_j rnd x y i h 0 d)"
  by (subst mosaic_i.simps) simp

lemma mosaic_i_done: "\<not> i < w \<Longrightarrow> mosaic_i rnd x y w h i d = d"
  by (subst mosaic_i.simps) simp

lemma mosaic_j_grays:
  "(\<And>n. \<lfloor>rnd n * 100\<rfloor> + 100 \<in> S) \<Longrightarrow> grays_in S (fst d) \<Longrightarrow>
   grays_in S (fst (mosaic_j rnd x y i h j d))"
proof (induction rnd x y i h j d rule: mosaic_j.induct)
  case (1 rnd x y i h j c k)
  show ?case
  proof (cases "j < h")
    case True
    from "1.prems"
    have "grays_in S (fst (c @ [FillStyle (Rgb (\<lfloor>rnd k * 100\<rfloor> + 100) (\<lfloor>rnd k * 100\<rfloor> + 100)
                                       (\<lfloor>rnd k * 100\<rfloor> + 100)),
                                FillRect (x + i) (y + j) blockSize blockSize], k + 1))"
      by (auto simp: grays_in_def)
    with "1.IH" [OF True refl "1.prems"(1)] show ?thesis
      unfolding mosaic_j_step [OF True] by simp
  next
    case False
    with "1.prems"(2) show ?thesis by (simp add: mosaic_j_done)
  qed
qed

lemma mosaic_i_grays:
  "(\<And>n. \<lfloor>rnd n * 100\<rfloor> + 100 \<in> S) \<Longrightarrow> grays_in S (fst d) \<Longrightarrow>
   grays_in S (fst (mosaic_i rnd x y w h i d))"
proof (induction rnd x y w h i d rule: mosaic_i.induct)
  case (1 rnd x y w h i d)
  show ?case
  proof (cases "i < w")
    case True
    from "1.prems" have "grays_in S (fst (mosaic_j rnd x y i h 0 d))"
      by (rule mosaic_j_grays)
    with "1.IH" [OF True "1.prems"(1)] show ?thesis
      unfolding mosaic_i_step [OF True] by simp
  next
    case False
    with "1.prems"(2) show ?thesis by (simp add: mosaic_i_done)
  qed
qed

lemma set_style_grays: "grays_in S c \<Longrightarrow> grays_in S (set_style a c)"
  by (auto simp: grays_in_def set_style_def)

lemma grays_in_append: "grays_in S c \<Longrightarrow> grays_in S c' \<Longrightarrow> grays_in S (c @ c')"
  by (auto simp: grays_in_def)


lemma confirm_draw_mosaic:
  "ann_type a = Mosaic \<Longrightarrow>
   confirm_draw rnd a d =
     (if 2 \<le> length (points a)
      then Inr (drawMosaic rnd (points a ! 0) (points a ! 1) (set_style a (fst d), snd d))
      else Inr (set_style a (fst d), snd d))"
  by (simp add: confirm_draw_def drawMosaic_def Let_def)

lemma confirm_draw_plain:
  assumes "ann_type a \<noteq> Mosaic"
  shows "(\<forall>rnd c k. confirm_draw rnd a (c, k) = Inl TypeError) \<or>
         (\<exists>cs. (\<forall>r g b. FillStyle (Rgb r g b) \<notin> set cs) \<and>
               (\<forall>rnd c k. confirm_draw rnd a (c, k) = Inr (set_style a c @ cs, k)))"
proof -
  consider (isrect) "ann_type a = Rect" "2 \<le> length (points a)"
    | (isarrow) "ann_type a = Arrow" "2 \<le> length (points a)"
    | (istext) "ann_type a = Text" "truthy_text (ann_text a)"
    | (other) "\<not> (ann_type a = Rect \<and> 2 \<le> length (points a))"
             "\<not> (ann_type a = Arrow \<and> 2 \<le> length (points a))"
             "\<not> (ann_type a = Text \<and> truthy_text (ann_text a))"
    by blast
  then show ?thesis
  proof cases
    case isrect
    define cs where "cs = [StrokeRect (pt_x (points a ! 0)) (pt_y (points a ! 0))
                (pt_x (points a ! 1) - pt_x (points a ! 0))
                (pt_y (points a ! 1) - pt_y (points a ! 0))]"
    from isrect have "\<forall>rnd c k. confirm_draw rnd a (c, k) = Inr (set_style a c @ cs, k)"
      by (simp add: confirm_draw_def Let_def cs_def)
    moreover have "\<forall>r g b. FillStyle (Rgb r g b) \<notin> set cs"
      by (simp add: cs_def)
    ultimately show ?thesis by blast
  next
    case isarrow
    define cs where "cs = drawArrow (points a ! 0) (points a ! 1) []"
    from isarrow have "\<forall>rnd c k. confirm_draw rnd a (c, k) = Inr (set_style a c @ cs, k)"
      by (simp add: confirm_draw_def drawArrow_def Let_def cs_def)
    moreover have "\<forall>r g b. FillStyle (Rgb r g b) \<notin> set cs"
      by (simp add: drawArrow_def Let_def cs_def)
    ultimately show ?thesis by blast
  next
    case istext
    show ?thesis
    proof (cases "points a")
      case Nil
      with istext have "\<forall>rnd c k. confirm_draw rnd a (c, k) = Inl TypeError"
        by (simp add: confirm_draw_def Let_def)
      then show ?thesis by blast
    next
      case (Cons p ps)
      define cs where "cs = [Font (fontSize_or_16 (fontSize (style a))),
                FillText (the (ann_text a)) (pt_x p) (pt_y p)]"
      from istext Cons
      have "\<forall>rnd c k. confirm_draw rnd a (c, k) = Inr (set_style a c @ cs, k)"
        by (simp add: confirm_draw_def Let_def cs_def)
      moreover have "\<forall>r g b. FillStyle (Rgb r g b) \<notin> set cs"
        by (simp add: cs_def)
      ultimately show ?thesis by blast
    qed
  next
    case other
    with assms have "\<forall>rnd c k. confirm_draw rnd a (c, k) = Inr (set_style a c @ [], k)"
      by (auto simp: confirm_draw_def Let_def)
    moreover have "\<forall>r g b. FillStyle (Rgb r g b) \<notin> set ([] :: canvas_cmd list)"
      by simp
    ultimately show ?thesis by blast
  qed
qed

lemma drawMosaic_grays:
  "(\<And>n. \<lfloor>rnd n * 100\<rfloor> + 100 \<in> S) \<Longrightarrow> grays_in S (fst d) \<Longrightarrow>
   grays_in S (fst (drawMosaic rnd p q d))"
  unfolding drawMosaic_def Let_def by (rule mosaic_i_grays)

lemma confirm_draw_grays:
  assumes rnd: "\<And>n. \<lfloor>rnd n * 100\<rfloor> + 100 \<in> S"
    and d: "grays_in S (fst d)"
    and r: "confirm_draw rnd a d = Inr d'"
  shows "grays_in S (fst d')"
proof (cases "ann_type a = Mosaic")
  case True
  from d have st: "grays_in S (fst (set_style a (fst d), snd d))"
    by (simp add: set_style_grays)
  from rnd st have dm: "grays_in S (fst (drawMosaic rnd (points a ! 0) (points a ! 1) (set_style a (fst d), snd d)))"
    by (rule drawMosaic_grays)
  show ?thesis
  proof (cases "2 \<le> length (points a)")
    case two: True
    with r True have "d' = drawMosaic rnd (points a ! 0) (points a ! 1) (set_style a (fst d), snd d)"
      by (simp add: confirm_draw_mosaic)
    with dm show ?thesis by simp
  next
    case few: False
    with r True have "d' = (set_style a (fst d), snd d)"
      by (simp add: confirm_draw_mosaic)
    with st show ?thesis by simp
  qed
next
  case False
  from confirm_draw_plain [OF False] r obtain cs
    where cs: "\<forall>r g b. FillStyle (Rgb r g b) \<notin> set cs"
      and eq: "confirm_draw rnd a d = Inr (set_style a (fst d) @ cs, snd d)"
    by (cases d) fastforce
  from cs have "grays_in S cs" by (simp add: grays_in_def)
  with d have "grays_in S (set_style a (fst d) @ cs)"
    by (simp add: grays_in_append set_style_grays)
  with eq r show ?thesis by simp
qed

lemma confirm_forEach_grays:
  "(\<And>n. \<lfloor>rnd n * 100\<rfloor> + 100 \<in> S) \<Longrightarrow> grays_in S (fst d) \<Longrightarrow>
   confirm_forEach rnd anns d = Inr d' \<Longrightarrow> grays_in S (fst d')"
proof (induction anns arbitrary: d)
  case Nil
  then show ?case by simp
next
  case (Cons a anns)
  from Cons.prems(3) obtain d1 where d1: "confirm_draw rnd a d = Inr d1"
    and rest: "confirm_forEach rnd anns d1 = Inr d'"
    by (auto split: sum.splits)
  from Cons.prems(1,2) d1 have "grays_in S (fst d1)" by (rule confirm_draw_grays)
  with Cons.IH Cons.prems(1) rest show ?case by blast
qed

lemma confirm_forEach_plain:
  "\<forall>a\<in>set anns. ann_type a \<noteq> Mosaic \<Longrightarrow>
   (\<exists>e. \<forall>rnd k. confirm_forEach rnd anns (c, k) = Inl e) \<or>
   (\<exists>c'. \<forall>rnd k. confirm_forEach rnd anns (c, k) = Inr (c', k))"
proof (induction anns arbitrary: c)
  case Nil
  show ?case by simp
next
  case (Cons a anns)
  from Cons.prems have nm: "ann_type a \<noteq> Mosaic" and rest: "\<forall>b\<in>set anns. ann_type b \<noteq> Mosaic"
    by simp_all
  from confirm_draw_plain [OF nm] show ?case
  proof
    assume "\<forall>rnd c k. confirm_draw rnd a (c, k) = Inl TypeError"
    then have "\<forall>rnd k. confirm_forEach rnd (a # anns) (c, k) = Inl TypeError"
      by simp
    then show ?thesis by blast
  next
    assume "\<exists>cs. (\<forall>r g b. FillStyle (Rgb r g b) \<notin> set cs) \<and>
               (\<forall>rnd c k. confirm_draw rnd a (c, k) = Inr (set_style a c @ cs, k))"
    then obtain cs where eq: "\<And>rnd c k. confirm_draw rnd a (c, k) = Inr (set_style a c @ cs, k)"
      by blast
    have step: "confirm_forEach rnd (a # anns) (c, k) = confirm_forEach rnd anns (set_style a c @ cs, k)"
      for rnd k
      by (simp add: eq)
    from Cons.IH [OF rest, of "set_style a c @ cs"] show ?thesis
      unfolding step .
  qed
qed

lemma confirm_canvas_plain:
  assumes "\<forall>a\<in>set anns. ann_type a \<noteq> Mosaic"
  shows "confirm_canvas sel img anns rnd1 = confirm_canvas sel img anns rnd2"
proof -
  from confirm_forEach_plain [OF assms, of "[Canvas (sel_width sel) (sel_height sel), DrawImage img 0 0]"]
  show ?thesis
  proof
    assume "\<exists>e. \<forall>rnd k. confirm_forEach rnd anns
              ([Canvas (sel_width sel) (sel_height sel), DrawImage img 0 0], k) = Inl e"
    then show ?thesis by (auto simp: confirm_canvas_def)
  next
    assume "\<exists>c'. \<forall>rnd k. confirm_forEach rnd anns
              ([Canvas (sel_width sel) (sel_height sel), DrawImage img 0 0], k) = Inr (c', k)"
    then show ?thesis by (auto simp: confirm_canvas_def)
  qed
qed


lemma mosaic_j_mono: "set (fst d) \<subseteq> set (fst (mosaic_j rnd x y i h j d))"
proof (induction rnd x y i h j d rule: mosaic_j.induct)
  case (1 rnd x y i h j c k)
  show ?case
  proof (cases "j < h")
    case True
    from "1.IH" [OF True refl] show ?thesis
      unfolding mosaic_j_step [OF True] by simp
  next
    case False
    then show ?thesis by (simp add: mosaic_j_done)
  qed
qed

lemma mosaic_i_mono: "set (fst d) \<subseteq> set (fst (mosaic_i rnd x y w h i d))"
proof (induction rnd x y w h i d rule: mosaic_i.induct)
  case (1 rnd x y w h i d)
  show ?case
  proof (cases "i < w")
    case True
    have "set (fst d) \<subseteq> set (fst (mosaic_j rnd x y i h 0 d))"
      by (rule mosaic_j_mono)
    also have "\<dots> \<subseteq> set (fst (mosaic_i rnd x y w h (i + blockSize) (mosaic_j rnd x y i h 0 d)))"
      by (rule "1.IH" [OF True])
    finally show ?thesis
      unfolding mosaic_i_step [OF True] .
  next
    case False
    then show ?thesis by (simp add: mosaic_i_done)
  qed
qed

lemma mosaic_j_first:
  assumes "j < h"
  shows "FillStyle (Rgb (\<lfloor>rnd k * 100\<rfloor> + 100) (\<lfloor>rnd k * 100\<rfloor> + 100) (\<lfloor>rnd k * 100\<rfloor> + 100))
           \<in> set (fst (mosaic_j rnd x y i h j (c, k)))"
proof -
  define g where "g = \<lfloor>rnd k * 100\<rfloor> + 100"
  define c1 where "c1 = c @ [FillStyle (Rgb g g g), FillRect (x + i) (y + j) blockSize blockSize]"
  have "mosaic_j rnd x y i h j (c, k) = mosaic_j rnd x y i h (j + blockSize) (c1, k + 1)"
    unfolding c1_def g_def by (rule mosaic_j_step [OF assms])
  moreover have "set (fst (c1, k + 1)) \<subseteq> set (fst (mosaic_j rnd x y i h (j + blockSize) (c1, k + 1)))"
    by (rule mosaic_j_mono)
  moreover have "FillStyle (Rgb g g g) \<in> set c1"
    by (simp add: c1_def)
  ultimately show ?thesis
    unfolding g_def [symmetric] by auto
qed

lemma mosaic_i_first:
  assumes "i < w" "0 < h"
  shows "FillStyle (Rgb (\<lfloor>rnd k * 100\<rfloor> + 100) (\<lfloor>rnd k * 100\<rfloor> + 100) (\<lfloor>rnd k * 100\<rfloor> + 100))
           \<in> set (fst (mosaic_i rnd x y w h i (c, k)))"
proof -
  define d1 where "d1 = mosaic_j rnd x y i h 0 (c, k)"
  have "mosaic_i rnd x y w h i (c, k) = mosaic_i rnd x y w h (i + blockSize) d1"
    unfolding d1_def by (rule mosaic_i_step [OF assms(1)])
  moreover have "set (fst d1) \<subseteq> set (fst (mosaic_i rnd x y w h (i + blockSize) d1))"
    by (rule mosaic_i_mono)
  moreover from assms(2)
  have "FillStyle (Rgb (\<lfloor>rnd k * 100\<rfloor> + 100) (\<lfloor>rnd k * 100\<rfloor> + 100) (\<lfloor>rnd k * 100\<rfloor> + 100))
          \<in> set (fst d1)"
    unfolding d1_def by (rule mosaic_j_first)
  ultimately show ?thesis by auto
qed

lemma confirm_draw_total:
  assumes "text_has_point a"
  shows "\<exists>d'. confirm_draw rnd a d = Inr d' \<and> set (fst d) \<subseteq> set (fst d')"
proof (cases "ann_type a = Mosaic")
  case True
  have st: "set (fst d) \<subseteq> set (fst (set_style a (fst d), snd d))"
    by (auto simp: set_style_def)
  show ?thesis
  proof (cases "2 \<le> length (points a)")
    case two: True
    have "set (fst (set_style a (fst d), snd d))
        \<subseteq> set (fst (drawMosaic rnd (points a ! 0) (points a ! 1) (set_style a (fst d), snd d)))"
      unfolding drawMosaic_def Let_def by (rule mosaic_i_mono)
    with st have "set (fst d)
        \<subseteq> set (fst (drawMosaic rnd (points a ! 0) (points a ! 1) (set_style a (fst d), snd d)))"
      by (rule subset_trans)
    moreover from True two have "confirm_draw rnd a d =
        Inr (drawMosaic rnd (points a ! 0) (points a ! 1) (set_style a (fst d), snd d))"
      by (simp add: confirm_draw_mosaic)
    ultimately show ?thesis by blast
  next
    case few: False
    with True have "confirm_draw rnd a d = Inr (set_style a (fst d), snd d)"
      by (simp add: confirm_draw_mosaic)
    with st show ?thesis by blast
  qed
next
  case False
  obtain c k where d: "d = (c, k)" by (cases d)
  from confirm_draw_plain [OF False] show ?thesis
  proof
    assume thr: "\<forall>rnd c k. confirm_draw rnd a (c, k) = Inl TypeError"
    have "ann_type a = Text \<and> points a = []"
    proof (rule ccontr)
      assume "\<not> (ann_type a = Text \<and> points a = [])"
      then have "\<exists>d'. confirm_draw rnd a (c, k) = Inr d'"
        by (auto simp: confirm_draw_def Let_def split: list.splits)
      with thr show False by simp
    qed
    with assms show ?thesis by (simp add: text_has_point_def)
  next
    assume "\<exists>cs. (\<forall>r g b. FillStyle (Rgb r g b) \<notin> set cs) \<and>
               (\<forall>rnd c k. confirm_draw rnd a (c, k) = Inr (set_style a c @ cs, k))"
    then obtain cs where "confirm_draw rnd a (c, k) = Inr (set_style a c @ cs, k)"
      by blast
    then show ?thesis
      by (auto simp: d set_style_def)
  qed
qed

lemma confirm_forEach_total:
  "\<forall>a\<in>set anns. text_has_point a \<Longrightarrow>
   \<exists>d'. confirm_forEach rnd anns d = Inr d' \<and> set (fst d) \<subseteq> set (fst d')"
proof (induction anns arbitrary: d)
  case Nil
  show ?case by simp
next
  case (Cons a anns)
  from Cons.prems have "text_has_point a" and rest: "\<forall>b\<in>set anns. text_has_point b"
    by simp_all
  from confirm_draw_total [OF this(1)] obtain d1
    where d1: "confirm_draw rnd a d = Inr d1" "set (fst d) \<subseteq> set (fst d1)" by blast
  from Cons.IH [OF rest] obtain d'
    where d': "confirm_forEach rnd anns d1 = Inr d'" "set (fst d1) \<subseteq> set (fst d')" by blast
  from d1 d' show ?case by auto
qed

lemma confirm_draw_blocks:
  assumes "mosaic_has_blocks m"
  shows "\<exists>d'. confirm_draw rnd m (c, k) = Inr d' \<and>
           FillStyle (Rgb (\<lfloor>rnd k * 100\<rfloor> + 100) (\<lfloor>rnd k * 100\<rfloor> + 100) (\<lfloor>rnd k * 100\<rfloor> + 100))
             \<in> set (fst d')"
proof -
  from assms have ty: "ann_type m = Mosaic" and len: "2 \<le> length (points m)"
    and w: "0 < \<bar>pt_x (points m ! 1) - pt_x (points m ! 0)\<bar>"
    and h: "0 < \<bar>pt_y (points m ! 1) - pt_y (points m ! 0)\<bar>"
    by (simp_all add: mosaic_has_blocks_def)
  from ty len have "confirm_draw rnd m (c, k) =
      Inr (drawMosaic rnd (points m ! 0) (points m ! 1) (set_style m c, k))"
    by (simp add: confirm_draw_mosaic)
  moreover from w h
  have "FillStyle (Rgb (\<lfloor>rnd k * 100\<rfloor> + 100) (\<lfloor>rnd k * 100\<rfloor> + 100) (\<lfloor>rnd k * 100\<rfloor> + 100))
          \<in> set (fst (drawMosaic rnd (points m ! 0) (points m ! 1) (set_style m c, k)))"
    unfolding drawMosaic_def Let_def by (rule mosaic_i_first)
  ultimately show ?thesis by simp
qed

lemma confirm_forEach_blocks:
  assumes g: "\<And>n. \<lfloor>rnd n * 100\<rfloor> + 100 = g"
  shows "\<forall>a\<in>set anns. text_has_point a \<Longrightarrow> m \<in> set anns \<Longrightarrow> mosaic_has_blocks m \<Longrightarrow>
         \<exists>d'. confirm_forEach rnd anns d = Inr d' \<and> FillStyle (Rgb g g g) \<in> set (fst d')"
proof (induction anns arbitrary: d)
  case Nil
  then show ?case by simp
next
  case (Cons a anns)
  from Cons.prems(1) have ok: "text_has_point a" and rest: "\<forall>b\<in>set anns. text_has_point b"
    by simp_all
  show ?case
  proof (cases "m = a")
    case True
    obtain c k where d: "d = (c, k)" by (cases d)
    from confirm_draw_blocks [OF Cons.prems(3), of rnd c k] g obtain d1
      where d1: "confirm_draw rnd a d = Inr d1" "FillStyle (Rgb g g g) \<in> set (fst d1)"
      unfolding True d by auto
    from confirm_forEach_total [OF rest] obtain d'
      where d': "confirm_forEach rnd anns d1 = Inr d'" "set (fst d1) \<subseteq> set (fst d')" by blast
    from d1 d' show ?thesis by auto
  next
    case False
    with Cons.prems(2) have mem: "m \<in> set anns" by simp
    from confirm_draw_total [OF ok] obtain d1
      where d1: "confirm_draw rnd a d = Inr d1" by blast
    from Cons.IH [OF rest mem Cons.prems(3)] obtain d'
      where "confirm_forEach rnd anns d1 = Inr d'" "FillStyle (Rgb g g g) \<in> set (fst d')" by blast
    with d1 show ?thesis by auto
  qed
qed


lemma valid_random_gray:
  assumes "valid_random rnd"
  shows "\<lfloor>rnd n * 100\<rfloor> + 100 \<in> {100..<200}"
proof -
  from assms have "0 \<le> rnd n" "rnd n < 1" by (simp_all add: valid_random_def)
  then have "0 \<le> rnd n * 100" "rnd n * 100 < 100" by simp_all
  then have "0 \<le> \<lfloor>rnd n * 100\<rfloor>" "\<lfloor>rnd n * 100\<rfloor> < 100"
    by (simp_all add: floor_less_iff)
  then show ?thesis by simp
qed

lemma confirm_canvas_grays:
  assumes "\<And>n. \<lfloor>rnd n * 100\<rfloor> + 100 \<in> S" "confirm_canvas sel img anns rnd = Inr c"
  shows "grays_in S c"
proof -
  from assms(2) obtain d where d: "confirm_forEach rnd anns
      ([Canvas (sel_width sel) (sel_height sel), DrawImage img 0 0], 0) = Inr d" and c: "c = fst d"
    by (auto simp: confirm_canvas_def split: sum.splits)
  have "grays_in S (fst ([Canvas (sel_width sel) (sel_height sel), DrawImage img 0 0], 0 :: nat))"
    by (simp add: grays_in_def)
  with assms(1) have "grays_in S (fst d)"
    using d by (rule confirm_forEach_grays)
  with c show ?thesis by simp
qed

lemma confirm_canvas_differs:
  assumes m: "m \<in> set anns" "mosaic_has_blocks m" and ok: "\<forall>a\<in>set anns. text_has_point a"
  shows "confirm_canvas sel img anns (\<lambda>_. 0) \<noteq> confirm_canvas sel img anns (\<lambda>_. 1 / 2)"
proof
  assume same: "confirm_canvas sel img anns (\<lambda>_. 0) = confirm_canvas sel img anns (\<lambda>_. 1 / 2)"
  define start :: drawing
    where "start = ([Canvas (sel_width sel) (sel_height sel), DrawImage img 0 0], 0)"
  have "\<And>n :: nat. \<lfloor>(1 / 2 :: real) * 100\<rfloor> + 100 = 150" by simp
  from confirm_forEach_blocks [where rnd = "\<lambda>_. 1 / 2", OF this ok m] obtain d2
    where d2: "confirm_forEach (\<lambda>_. 1 / 2) anns start = Inr d2"
      "FillStyle (Rgb 150 150 150) \<in> set (fst d2)"
    by blast
  from d2(1) have c2: "confirm_canvas sel img anns (\<lambda>_. 1 / 2) = Inr (fst d2)"
    by (simp add: confirm_canvas_def start_def)
  have "\<And>n :: nat. \<lfloor>(0 :: real) * 100\<rfloor> + 100 \<in> {100 :: int}" by simp
  from confirm_canvas_grays [where rnd = "\<lambda>_. 0", OF this] same c2
  have "grays_in {100} (fst d2)" by simp
  with d2(2) have "(150 :: int) = 100"
    unfolding grays_in_def by blast
  then show False by simp
qed

text \<open>
  Claim C6. The exported raster is what the browser paints for the sequence of calls that
  \<^verbatim>\<open>confirm\<close> makes on the canvas. For a fixed selection, base image and annotation list that holds
  only rect, arrow and text annotations, that sequence (or the error thrown) is the same in any
  two runs, whatever \<^verbatim>\<open>Math.random\<close> would return. When the list holds a mosaic annotation that
  paints a block (and no annotation makes \<^verbatim>\<open>confirm\<close> throw), there are two runs on the same inputs
  whose sequences differ, because every block's fill style is a gray computed from a fresh value
  of \<^verbatim>\<open>Math.random\<close>; and in every run each such gray has equal components in \<open>[100, 200)\<close>.
\<close>

theorem composite_determinism:
  "((\<forall>a\<in>set anns. ann_type a \<in> {Rect, Arrow, Text}) \<longrightarrow>
      confirm_canvas sel img anns rnd1 = confirm_canvas sel img anns rnd2) \<and>
   ((\<exists>m\<in>set anns. mosaic_has_blocks m) \<and> (\<forall>a\<in>set anns. text_has_point a) \<longrightarrow>
      (\<exists>r1 r2. valid_random r1 \<and> valid_random r2 \<and>
         confirm_canvas sel img anns r1 \<noteq> confirm_canvas sel img anns r2)) \<and>
   (valid_random rnd \<and> confirm_canvas sel img anns rnd = Inr c \<longrightarrow> grays_in {100..<200} c)"
proof (intro conjI impI)
  assume "\<forall>a\<in>set anns. ann_type a \<in> {Rect, Arrow, Text}"
  then have "\<forall>a\<in>set anns. ann_type a \<noteq> Mosaic" by auto
  then show "confirm_canvas sel img anns rnd1 = confirm_canvas sel img anns rnd2"
    by (rule confirm_canvas_plain)
next
  assume "(\<exists>m\<in>set anns. mosaic_has_blocks m) \<and> (\<forall>a\<in>set anns. text_has_point a)"
  then obtain m where "m \<in> set anns" "mosaic_has_blocks m" "\<forall>a\<in>set anns. text_has_point a"
    by blast
  then have "confirm_canvas sel img anns (\<lambda>_. 0) \<noteq> confirm_canvas sel img anns (\<lambda>_. 1 / 2)"
    by (rule confirm_canvas_differs)
  moreover have "valid_random (\<lambda>_. 0)" "valid_random (\<lambda>_. 1 / 2)"
    by (simp_all add: valid_random_def)
  ultimately show "\<exists>r1 r2. valid_random r1 \<and> valid_random r2 \<and>
         confirm_canvas sel img anns r1 \<noteq> confirm_canvas sel img anns r2"
    by blast
next
  assume a: "valid_random rnd \<and> confirm_canvas sel img anns rnd = Inr c"
  then have "valid_random rnd" by simp
  then have "\<And>n. \<lfloor>rnd n * 100\<rfloor> + 100 \<in> {100..<200}"
    by (rule valid_random_gray)
  from this a [THEN conjunct2] show "grays_in {100..<200} c"
    by (rule confirm_canvas_grays)
qed

theorem composite_determinism_witness:
  "confirm_canvas \<lparr>sel_x = 0, sel_y = 0, sel_width = 200, sel_height = 100\<rparr> ''img''
      [annA, annB, annT] (\<lambda>_. 0)
     = confirm_canvas \<lparr>sel_x = 0, sel_y = 0, sel_width = 200, sel_height = 100\<rparr> ''img''
         [annA, annB, annT] (\<lambda>_. 1 / 2) \<and>
   (\<exists>r1 r2. valid_random r1 \<and> valid_random r2 \<and>
      confirm_canvas \<lparr>sel_x = 0, sel_y = 0, sel_width = 200, sel_height = 100\<rparr> ''img''
          [annA, annB, annT, annM] r1
        \<noteq> confirm_canvas \<lparr>sel_x = 0, sel_y = 0, sel_width = 200, sel_height = 100\<rparr> ''img''
            [annA, annB, annT, annM] r2) \<and>
   valid_random (\<lambda>_. 1 / 2) \<and>
   (\<exists>c. confirm_canvas \<lparr>sel_x = 0, sel_y = 0, sel_width = 200, sel_height = 100\<rparr> ''img''
           [annA, annB, annT, annM] (\<lambda>_. 1 / 2) = Inr c \<and>
        grays_in {100..<200} c)"
proof -
  let ?sel = "\<lparr>sel_x = 0, sel_y = 0, sel_width = 200, sel_height = 100\<rparr>"
  have plain: "\<forall>a\<in>set [annA, annB, annT]. ann_type a \<in> {Rect, Arrow, Text}"
    by (simp add: annA_def annB_def annT_def)
  have blocks: "\<exists>m\<in>set [annA, annB, annT, annM]. mosaic_has_blocks m"
    by (simp add: annM_def mosaic_has_blocks_def)
  have ok: "\<forall>a\<in>set [annA, annB, annT, annM]. text_has_point a"
    by (simp add: annA_def annB_def annT_def annM_def text_has_point_def)
  have v: "valid_random (\<lambda>_. 1 / 2)"
    by (simp add: valid_random_def)
  from confirm_forEach_total [OF ok] obtain d
    where "confirm_forEach (\<lambda>_. 1 / 2) [annA, annB, annT, annM]
             ([Canvas (sel_width ?sel) (sel_height ?sel), DrawImage ''img'' 0 0], 0) = Inr d"
    by blast
  then have run: "confirm_canvas ?sel ''img'' [annA, annB, annT, annM] (\<lambda>_. 1 / 2) = Inr (fst d)"
    by (simp add: confirm_canvas_def)
  note t1 = composite_determinism [of "[annA, annB, annT]" ?sel "''img''" "\<lambda>_. 0" "\<lambda>_. 1 / 2"]
  note t2 = composite_determinism [of "[annA, annB, annT, annM]" ?sel "''img''" _ _ "\<lambda>_. 1 / 2" "fst d"]
  from t1 plain have c1: "confirm_canvas ?sel ''img'' [annA, annB, annT] (\<lambda>_. 0)
      = confirm_canvas ?sel ''img'' [annA, annB, annT] (\<lambda>_. 1 / 2)"
    by blast
  from t2 blocks ok have c2: "\<exists>r1 r2. valid_random r1 \<and> valid_random r2 \<and>
      confirm_canvas ?sel ''img'' [annA, annB, annT, annM] r1
        \<noteq> confirm_canvas ?sel ''img'' [annA, annB, annT, annM] r2"
    by blast
  from t2 v run have c3: "grays_in {100..<200} (fst d)"
    by blast
  from c1 c2 v run c3 show ?thesis by blast
qed

section \<open>Properties of the annotation editor\<close>

text \<open>
  What the handlers guarantee: an annotation emitted by \<^verbatim>\<open>onMouseUp\<close> has exactly two points, no
  text, and the type of the tool prop at that moment; one emitted by \<^verbatim>\<open>submitText\<close> is a text
  annotation with one point and a non-empty text. Hence every emitted annotation satisfies the
  point-count invariant as long as no drag ends while the tool prop is \<^verbatim>\<open>'text'\<close>.
\<close>

lemma editor_onMouseUp_shape:
  assumes "length (currentPoints s) \<le> 2" "editor_onMouseUp props now s = (out, s')"
  shows "currentPoints s' = [] \<or> s' = s"
    and "out = Some a \<Longrightarrow> ann_type a = currentTool props \<and> length (points a) = 2 \<and> ann_text a = None"
  using assms by (auto simp: editor_onMouseUp_def split: if_splits)

lemma submitText_shape:
  assumes "submitText props now s = (out, s')"
  shows "currentPoints s' = currentPoints s"
    and "out = Some a \<Longrightarrow> ann_type a = Text \<and> length (points a) = 1 \<and> truthy_text (ann_text a)"
  using assms by (auto simp: submitText_def truthy_text_def split: option.splits if_splits)

lemma editor_step_shape:
  assumes len: "length (currentPoints s) \<le> 2"
    and rel: "release_tool_not_text ev"
    and step: "editor_step ev s = (out, s')"
  shows "length (currentPoints s') \<le> 2"
    and "out = Some a \<Longrightarrow> point_count_invariant a"
proof -
  obtain props e where ev: "ev = (props, e)" by (cases ev)
  show "length (currentPoints s') \<le> 2"
  proof (cases e)
    case (MouseDown pos)
    with step ev len show ?thesis
      by (auto simp: editor_onMouseDown_def split: if_splits)
  next
    case (MouseMove pos)
    with step ev len show ?thesis
      by (auto simp: editor_onMouseMove_def split: if_splits)
  next
    case (MouseUp now)
    with step ev have "editor_onMouseUp props now s = (out, s')" by simp
    from editor_onMouseUp_shape(1) [OF len this] len show ?thesis by auto
  next
    case (MouseLeave now)
    with step ev have "editor_onMouseUp props now s = (out, s')" by simp
    from editor_onMouseUp_shape(1) [OF len this] len show ?thesis by auto
  next
    case (Input v)
    with step ev len show ?thesis by auto
  next
    case (KeyupEnter now)
    with step ev have "submitText props now s = (out, s')" by simp
    from submitText_shape(1) [OF this] len show ?thesis by simp
  next
    case KeyupEsc
    with step ev len show ?thesis by auto
  qed
  show "point_count_invariant a" if out: "out = Some a"
  proof (cases e)
    case (MouseDown pos)
    with step ev out show ?thesis by simp
  next
    case (MouseMove pos)
    with step ev out show ?thesis by simp
  next
    case (MouseUp now)
    with step ev have "editor_onMouseUp props now s = (out, s')" by simp
    from editor_onMouseUp_shape(2) [OF len this out] rel ev MouseUp show ?thesis
      by (cases "currentTool props") (simp_all add: point_count_invariant_def release_tool_not_text_def)
  next
    case (MouseLeave now)
    with step ev have "editor_onMouseUp props now s = (out, s')" by simp
    from editor_onMouseUp_shape(2) [OF len this out] rel ev MouseLeave show ?thesis
      by (cases "currentTool props") (simp_all add: point_count_invariant_def release_tool_not_text_def)
  next
    case (Input v)
    with step ev out show ?thesis by simp
  next
    case (KeyupEnter now)
    with step ev have "submitText props now s = (out, s')" by simp
    from submitText_shape(2) [OF this out] show ?thesis
      by (simp add: point_count_invariant_def)
  next
    case KeyupEsc
    with step ev out show ?thesis by simp
  qed
qed

lemma editor_run_invariant_when_tool_kept:
  "length (currentPoints s) \<le> 2 \<Longrightarrow> \<forall>ev\<in>set evs. release_tool_not_text ev \<Longrightarrow>
   a \<in> set (editor_run evs s) \<Longrightarrow> point_count_invariant a"
proof (induction evs arbitrary: s)
  case Nil
  then show ?case by simp
next
  case (Cons ev evs)
  obtain out s' where step: "editor_step ev s = (out, s')" by (cases "editor_step ev s")
  from Cons.prems(2) have rel: "release_tool_not_text ev" and rest: "\<forall>e\<in>set evs. release_tool_not_text e"
    by simp_all
  note sh = editor_step_shape [OF Cons.prems(1) rel step]
  from Cons.prems(3) step have "out = Some a \<or> a \<in> set (editor_run evs s')"
    by (auto split: option.splits)
  then show ?case
  proof
    assume "out = Some a"
    then show ?thesis by (rule sh(2))
  next
    assume "a \<in> set (editor_run evs s')"
    with Cons.IH [OF sh(1) rest] show ?thesis .
  qed
qed

text \<open>
  Claim C10 says that every annotation the editor emits satisfies the point-count invariant, a
  text annotation having exactly one point and a non-empty text. \<^verbatim>\<open>onMouseDown\<close> keeps the text
  tool out of a drag, but \<^verbatim>\<open>onMouseUp\<close> stamps the annotation with the tool prop of the moment of
  release: a drag begun with the rect tool and released after the tool prop has become
  \<^verbatim>\<open>'text'\<close> emits a text annotation with two points and no text.
\<close>

theorem editor_emits_text_with_two_points:
  "editor_run
     [(\<lparr>currentTool = Rect, currentColor = ''#ff0000'', prop_lineWidth = 3\<rparr>,
         MouseDown \<lparr>pt_x = 10, pt_y = 10\<rparr>),
      (\<lparr>currentTool = Rect, currentColor = ''#ff0000'', prop_lineWidth = 3\<rparr>,
         MouseMove \<lparr>pt_x = 60, pt_y = 40\<rparr>),
      (\<lparr>currentTool = Text, currentColor = ''#ff0000'', prop_lineWidth = 3\<rparr>,
         MouseUp ''1700000000000'')]
     (editor_setup True)
   = [\<lparr>ann_id = ''1700000000000'', ann_type = Text,
       points = [\<lparr>pt_x = 10, pt_y = 10\<rparr>, \<lparr>pt_x = 60, pt_y = 40\<rparr>],
       style = \<lparr>color = ''#ff0000'', lineWidth = 3, fontSize = None\<rparr>,
       ann_text = None\<rparr>] \<and>
   \<not> point_count_invariant
       \<lparr>ann_id = ''1700000000000'', ann_type = Text,
        points = [\<lparr>pt_x = 10, pt_y = 10\<rparr>, \<lparr>pt_x = 60, pt_y = 40\<rparr>],
        style = \<lparr>color = ''#ff0000'', lineWidth = 3, fontSize = None\<rparr>,
        ann_text = None\<rparr>"
  by (simp add: editor_setup_def editor_onMouseDown_def editor_onMouseMove_def
      editor_onMouseUp_def point_count_invariant_def)

end
